theory Spec2Isabelle
  imports Main "HOL-Library.Multiset"
begin

unbundle bit_operations_syntax

section \<open>Errors\<close>

text \<open>
  The ways the game can throw: a JavaScript TypeError (a property read or an indexed
  access on \<open>undefined\<close>), a ReferenceError (reading a global that was never
  declared), and the Error that \<open>Phaser.Utils.Array.Swap\<close> throws when one of the two
  items is not in the array.
\<close>

datatype error = TypeError | ReferenceError | SwapError

section \<open>The grid size\<close>

text \<open>
  \<^verbatim>\<open>if (!gridSize || gridSize < 3) { gridSize = 4; }\<close>
  The game never declares \<open>gridSize\<close>: the global is expected from the hosting page.
  When the page did not declare it, reading it in the test throws a ReferenceError; when
  the page declared it without a value it is undefined. \<open>!gridSize\<close> holds for
  undefined and for 0.
\<close>

datatype page_global = Undeclared | Undefined | Num int

definition gridSize_init :: "page_global \<Rightarrow> error + int" where
  "gridSize_init g =
     (case g of
        Undeclared \<Rightarrow> Inl ReferenceError
      | Undefined \<Rightarrow> Inr 4
      | Num n \<Rightarrow> Inr (if n = 0 \<or> n < 3 then 4 else n))"

section \<open>The array utilities used by the shuffle\<close>

text \<open>
  shuffleGrid builds its list with four functions of \<open>Phaser.Utils.Array\<close>, modelled
  here by what they do to an array of numbers.
\<close>

text \<open>
  \<open>NumberArray(start, end)\<close>: the numbers of a range, both ends included. The game
  calls it with 0 and \<open>gridSize * gridSize - 1\<close>; sizes are natural numbers here, and
  the model is meant for a size of at least 1 (the game runs with 3 or more).
\<close>

definition NumberArray :: "nat \<Rightarrow> nat \<Rightarrow> nat list" where
  "NumberArray start stop = [start..<Suc stop]"

text \<open>\<open>Remove(array, item)\<close>: the first occurrence of the item is spliced out.\<close>

definition Remove :: "nat list \<Rightarrow> nat \<Rightarrow> nat list" where
  "Remove array item = remove1 item array"

text \<open>
  \<open>Shuffle(array)\<close>, the Fisher--Yates loop
  \<^verbatim>\<open>for (i = array.length - 1; i > 0; i--) { j = floor(random() * (i + 1)); swap i, j }\<close>
  The random source is a function \<open>rnd\<close>: the draw made at index \<open>i\<close> is
  \<open>rnd i\<close> reduced into the range \<open>0..i\<close>, so every outcome of the loop is the run
  of some \<open>rnd\<close>.
\<close>

fun shuffle_from :: "(nat \<Rightarrow> nat) \<Rightarrow> nat \<Rightarrow> nat list \<Rightarrow> nat list" where
  "shuffle_from rnd 0 array = array"
| "shuffle_from rnd (Suc i) array =
     (let j = rnd (Suc i) mod (Suc i + 1);
          temp = array ! Suc i
      in shuffle_from rnd i (array[Suc i := array ! j, j := temp]))"

definition Shuffle :: "(nat \<Rightarrow> nat) \<Rightarrow> nat list \<Rightarrow> nat list" where
  "Shuffle rnd array = shuffle_from rnd (length array - 1) array"

text \<open>\<open>array.indexOf(item)\<close>, with \<open>None\<close> for -1.\<close>

fun indexOf :: "nat list \<Rightarrow> nat \<Rightarrow> nat option" where
  "indexOf [] item = None"
| "indexOf (x # xs) item = (if x = item then Some 0 else map_option Suc (indexOf xs item))"

text \<open>
  \<open>Swap(array, item1, item2)\<close> exchanges the positions of two \<^emph>\<open>elements\<close> of the
  array (the source calls it with the tile numbers 0 and 1: "swap the two lowest tile
  numbers (0 and 1)"), and throws when one of them is not in the array.
\<close>

definition Swap :: "nat list \<Rightarrow> nat \<Rightarrow> nat \<Rightarrow> error + nat list" where
  "Swap array item1 item2 =
     (if item1 = item2 then Inr array
      else case indexOf array item1 of
             None \<Rightarrow> Inl SwapError
           | Some index1 \<Rightarrow>
               (case indexOf array item2 of
                  None \<Rightarrow> Inl SwapError
                | Some index2 \<Rightarrow> Inr (array[index1 := item2, index2 := item1])))"

section \<open>shuffleGrid\<close>

text \<open>
  The inversion count: for every position, the number of later positions holding a
  smaller number (the two nested loops over \<open>i < j\<close>).
\<close>

fun inversions :: "nat list \<Rightarrow> nat" where
  "inversions [] = 0"
| "inversions (x # xs) = length (filter (\<lambda>y. x > y) xs) + inversions xs"

text \<open>The list before the parity step: the range with the blank's frame removed, shuffled.\<close>

definition shuffled :: "(nat \<Rightarrow> nat) \<Rightarrow> nat \<Rightarrow> nat list" where
  "shuffled rnd gridSize =
     Shuffle rnd (Remove (NumberArray 0 (gridSize * gridSize - 1)) (gridSize - 1))"

definition solvable :: "nat \<Rightarrow> nat list \<Rightarrow> nat" where
  "solvable gridSize tileNumbers = (gridSize mod 2) XOR (inversions tileNumbers mod 2)"

definition shuffleGrid :: "(nat \<Rightarrow> nat) \<Rightarrow> nat \<Rightarrow> error + nat list" where
  "shuffleGrid rnd gridSize =
     (let tileNumbers = shuffled rnd gridSize
      in if solvable gridSize tileNumbers = 0 then Swap tileNumbers 0 1
         else Inr tileNumbers)"

text \<open>Random sources used at concrete inputs.\<close>

definition rnd_keep :: "nat \<Rightarrow> nat" where
  "rnd_keep i = i"

definition rnd_first :: "nat \<Rightarrow> nat" where
  "rnd_first i = 0"

definition rnd_third :: "nat \<Rightarrow> nat" where
  "rnd_third i = (if i = 2 then 0 else i)"

definition rnd_second :: "nat \<Rightarrow> nat" where
  "rnd_second i = (if i = 1 then 0 else i)"

definition rnd_rows :: "nat \<Rightarrow> nat" where
  "rnd_rows i =
     (if i = 7 then 0 else if i = 6 then 1 else if i = 5 then 3 else if i = 3 then 2 else i)"


section \<open>Tiles, grid and scene\<close>

text \<open>
  A tile is an image game object with the two fields \<open>row\<close> and \<open>col\<close> that the game
  adds to it; \<open>frame\<close> is the key of the texture frame it shows (\<open>frame.name\<close>),
  \<open>None\<close> when the key given at creation was undefined (the list of frames had run
  out, which does not happen for a list of N * N - 1 entries). Tiles are objects: the grid
  holds references to them, and \<open>tiles\<close> is the store of the objects by reference.

  The state of the running game: the global \<open>grid\<close> (an array of rows, \<open>None\<close> for
  \<open>null\<close>), the tile objects, whether the scene still listens to
  \<open>gameobjectdown\<close>, whether the background music and the win sound are playing, the
  tweens that have been added and have not completed yet (each by its target), and how
  often the slide sound was played.
\<close>

type_synonym ref = nat

record tile =
  frame :: "nat option"
  row :: nat
  col :: nat

record game =
  grid :: "ref option list list"
  tiles :: "ref \<rightharpoonup> tile"
  input_on :: bool
  bgm_playing :: bool
  noot_playing :: bool
  tweens :: "ref list"
  slide_snd :: nat

subsection \<open>JavaScript array accesses\<close>

text \<open>
  Reading an array past its end gives \<open>undefined\<close>, which the game's tests
  (\<open>!x\<close> and \<open>x != null\<close>) do not tell from \<open>null\<close>; writing past its end extends
  the array with holes. Indexing the \<open>undefined\<close> that a missing row reads as throws
  a TypeError.
\<close>

definition js_get :: "'a option list \<Rightarrow> nat \<Rightarrow> 'a option" where
  "js_get xs i = (if i < length xs then xs ! i else None)"

definition js_set :: "'a option list \<Rightarrow> nat \<Rightarrow> 'a option \<Rightarrow> 'a option list" where
  "js_set xs i v =
     (if i < length xs then xs[i := v] else xs @ replicate (i - length xs) None @ [v])"

text \<open>\<open>grid[r][c]\<close> and \<open>grid[r][c] = v\<close>.\<close>

definition cell :: "ref option list list \<Rightarrow> nat \<Rightarrow> nat \<Rightarrow> error + ref option" where
  "cell g r c = (if r < length g then Inr (js_get (g ! r) c) else Inl TypeError)"

definition set_cell ::
  "ref option list list \<Rightarrow> nat \<Rightarrow> nat \<Rightarrow> ref option \<Rightarrow> error + ref option list list" where
  "set_cell g r c v = (if r < length g then Inr (g[r := js_set (g ! r) c v]) else Inl TypeError)"

subsection \<open>create: the population of the grid\<close>

text \<open>\<open>tileFrames.pop()\<close>: the last entry, or undefined when the array is empty.\<close>

definition pop :: "nat list \<Rightarrow> nat option" where
  "pop fs = (if fs = [] then None else Some (last fs))"

text \<open>
  The inner loop over \<open>j\<close> for the row \<open>i\<close>, and the outer loop over \<open>i\<close>. The
  loops carry the row (or the grid) built so far, the frames not popped yet, the tile
  objects created so far and the next fresh reference.
\<close>

fun fill_row ::
  "nat \<Rightarrow> nat \<Rightarrow> nat list \<Rightarrow> ref option list \<times> nat list \<times> (ref \<rightharpoonup> tile) \<times> ref \<Rightarrow>
   ref option list \<times> nat list \<times> (ref \<rightharpoonup> tile) \<times> ref" where
  "fill_row gridSize i [] b = b"
| "fill_row gridSize i (j # js) (rw, fs, hp, nx) =
     (if 0 < i \<or> j < gridSize - 1
      then fill_row gridSize i js
             (rw @ [Some nx], butlast fs, hp(nx \<mapsto> \<lparr>frame = pop fs, row = i, col = j\<rparr>), Suc nx)
      else fill_row gridSize i js (rw @ [None], fs, hp, nx))"

fun fill_grid ::
  "nat \<Rightarrow> nat list \<Rightarrow> ref option list list \<times> nat list \<times> (ref \<rightharpoonup> tile) \<times> ref \<Rightarrow>
   ref option list list \<times> nat list \<times> (ref \<rightharpoonup> tile) \<times> ref" where
  "fill_grid gridSize [] b = b"
| "fill_grid gridSize (i # is) (g, fs, hp, nx) =
     (case fill_row gridSize i [0..<gridSize] ([], fs, hp, nx) of
        (rw, fs', hp', nx') \<Rightarrow> fill_grid gridSize is (g @ [rw], fs', hp', nx'))"

text \<open>
  The scene after \<open>create\<close>, for the list \<open>tileFrames\<close> that shuffleGrid returned:
  the music plays and the scene listens for clicks and taps on the tiles.
\<close>

definition create :: "nat \<Rightarrow> nat list \<Rightarrow> game" where
  "create gridSize tileFrames =
     (case fill_grid gridSize [0..<gridSize] ([], tileFrames, Map.empty, 0) of
        (g, fs, hp, nx) \<Rightarrow>
          \<lparr>grid = g, tiles = hp, input_on = True, bgm_playing = True,
           noot_playing = False, tweens = [], slide_snd = 0\<rparr>)"

text \<open>The frames of the tiles in the cells that hold one, read in row-major order.\<close>

definition frames_in :: "(ref \<rightharpoonup> tile) \<Rightarrow> ref option list \<Rightarrow> nat option list" where
  "frames_in hp cs =
     concat (map (\<lambda>c. case c of None \<Rightarrow> []
                       | Some t \<Rightarrow> (case hp t of None \<Rightarrow> [] | Some ti \<Rightarrow> [frame ti])) cs)"

definition placed :: "game \<Rightarrow> nat option list" where
  "placed s = frames_in (tiles s) (concat (grid s))"

subsection \<open>slideTile and tileClicked\<close>

text \<open>
  slideTile adds a tween on the tile (whose completion callback is checkWin), writes the
  tile into the new cell, writes null into the cell named by the tile's fields, updates
  the fields and plays the slide sound. A handler that throws is modelled by its error
  alone.
\<close>

definition slideTile :: "game \<Rightarrow> ref \<Rightarrow> nat \<Rightarrow> nat \<Rightarrow> error + game" where
  "slideTile s t newRow newCol =
     (case tiles s t of
        None \<Rightarrow> Inl TypeError
      | Some ti \<Rightarrow>
          (case set_cell (grid s) newRow newCol (Some t) of
             Inl e \<Rightarrow> Inl e
           | Inr g1 \<Rightarrow>
               (case set_cell g1 (row ti) (col ti) None of
                  Inl e \<Rightarrow> Inl e
                | Inr g2 \<Rightarrow>
                    Inr (s\<lparr>tweens := tweens s @ [t],
                           grid := g2,
                           tiles := (tiles s)(t \<mapsto> ti\<lparr>row := newRow, col := newCol\<rparr>),
                           slide_snd := slide_snd s + 1\<rparr>))))"

text \<open>\<open>cond && !grid[r][c]\<close>: the cell is read only when the condition holds.\<close>

definition and_blank :: "bool \<Rightarrow> ref option list list \<Rightarrow> nat \<Rightarrow> nat \<Rightarrow> error + bool" where
  "and_blank cond g r c =
     (if cond then (case cell g r c of Inl e \<Rightarrow> Inl e | Inr v \<Rightarrow> Inr (v = None))
      else Inr False)"

definition tileClicked :: "nat \<Rightarrow> game \<Rightarrow> ref \<Rightarrow> error + game" where
  "tileClicked gridSize s t =
     (case tiles s t of
        None \<Rightarrow> Inl TypeError
      | Some ti \<Rightarrow>
          (case and_blank (0 < row ti) (grid s) (row ti - 1) (col ti) of
             Inl e \<Rightarrow> Inl e
           | Inr True \<Rightarrow> slideTile s t (row ti - 1) (col ti)
           | Inr False \<Rightarrow>
          (case and_blank (row ti < gridSize - 1) (grid s) (row ti + 1) (col ti) of
             Inl e \<Rightarrow> Inl e
           | Inr True \<Rightarrow> slideTile s t (row ti + 1) (col ti)
           | Inr False \<Rightarrow>
          (case and_blank (0 < col ti) (grid s) (row ti) (col ti - 1) of
             Inl e \<Rightarrow> Inl e
           | Inr True \<Rightarrow> slideTile s t (row ti) (col ti - 1)
           | Inr False \<Rightarrow>
          (case and_blank (col ti < gridSize - 1) (grid s) (row ti) (col ti + 1) of
             Inl e \<Rightarrow> Inl e
           | Inr True \<Rightarrow> slideTile s t (row ti) (col ti + 1)
           | Inr False \<Rightarrow> Inr s)))))"

subsection \<open>checkWin\<close>

text \<open>
  The inner loop over the columns of row \<open>i\<close>: \<open>Inr False\<close> when a tile shows a frame
  other than \<open>gridSize * i + j\<close> (the function returns), \<open>Inr True\<close> when the loop runs
  to its end.
\<close>

fun checkRow :: "nat \<Rightarrow> game \<Rightarrow> nat \<Rightarrow> nat list \<Rightarrow> error + bool" where
  "checkRow gridSize s i [] = Inr True"
| "checkRow gridSize s i (j # js) =
     (case cell (grid s) i j of
        Inl e \<Rightarrow> Inl e
      | Inr None \<Rightarrow> checkRow gridSize s i js
      | Inr (Some t) \<Rightarrow>
          (case tiles s t of
             None \<Rightarrow> Inl TypeError
           | Some ti \<Rightarrow>
               if frame ti \<noteq> Some (gridSize * i + j) then Inr False
               else checkRow gridSize s i js))"

text \<open>
  The statements that follow the inner loop, inside the outer loop: stop listening, stop
  the music, play the win sound unless it is playing.
\<close>

definition signalWin :: "game \<Rightarrow> game" where
  "signalWin s =
     (let s1 = s\<lparr>input_on := False, bgm_playing := False\<rparr>
      in if \<not> noot_playing s1 then s1\<lparr>noot_playing := True\<rparr> else s1)"

fun checkRows :: "nat \<Rightarrow> game \<Rightarrow> nat list \<Rightarrow> error + game" where
  "checkRows gridSize s [] = Inr s"
| "checkRows gridSize s (i # is) =
     (case checkRow gridSize s i [0..<gridSize] of
        Inl e \<Rightarrow> Inl e
      | Inr False \<Rightarrow> Inr s
      | Inr True \<Rightarrow> checkRows gridSize (signalWin s) is)"

definition checkWin :: "nat \<Rightarrow> game \<Rightarrow> error + game" where
  "checkWin gridSize s = checkRows gridSize s [0..<gridSize]"

subsection \<open>Events\<close>

text \<open>
  The two events the scene reacts to after \<open>create\<close>: a click or tap on a tile, which
  reaches tileClicked while the scene listens; and the completion of the oldest tween
  (all tweens last 600 ms, so they complete in the order they were added), which calls
  checkWin.
\<close>

datatype event = GameObjectDown ref | TweenComplete

fun fire :: "nat \<Rightarrow> game \<Rightarrow> event \<Rightarrow> error + game" where
  "fire gridSize s (GameObjectDown t) =
     (if input_on s then tileClicked gridSize s t else Inr s)"
| "fire gridSize s TweenComplete =
     (case tweens s of
        [] \<Rightarrow> Inr s
      | t # ts \<Rightarrow> checkWin gridSize (s\<lparr>tweens := ts\<rparr>))"

subsection \<open>The win condition and the grid invariant\<close>

text \<open>
  The win condition as the specification words it: every cell of the whole grid is the
  blank or holds the tile whose frame is the cell's home index.
\<close>

definition spec_isSolved :: "nat \<Rightarrow> game \<Rightarrow> bool" where
  "spec_isSolved gridSize s =
     list_all (\<lambda>i. list_all (\<lambda>j.
        case (if i < length (grid s) then js_get (grid s ! i) j else None) of
          None \<Rightarrow> True
        | Some t \<Rightarrow> (case tiles s t of None \<Rightarrow> False
                     | Some ti \<Rightarrow> frame ti = Some (gridSize * i + j)))
        [0..<gridSize]) [0..<gridSize]"

text \<open>
  The grid invariant: the grid is a square of side \<open>gridSize\<close>, exactly one cell is
  null, every tile object is in exactly one cell, and the fields of the tile in a cell are
  the cell's indices.
\<close>

definition shape :: "nat \<Rightarrow> game \<Rightarrow> bool" where
  "shape n s \<longleftrightarrow> length (grid s) = n \<and> (\<forall>r<n. length (grid s ! r) = n)"

definition one_blank :: "nat \<Rightarrow> game \<Rightarrow> bool" where
  "one_blank n s \<longleftrightarrow>
     (\<exists>r c. r < n \<and> c < n \<and>
        (\<forall>r'<n. \<forall>c'<n. (grid s ! r' ! c' = None) = (r' = r \<and> c' = c)))"

definition each_tile_once :: "nat \<Rightarrow> game \<Rightarrow> bool" where
  "each_tile_once n s \<longleftrightarrow>
     (\<forall>t\<in>dom (tiles s). \<exists>r c. r < n \<and> c < n \<and>
        (\<forall>r'<n. \<forall>c'<n. (grid s ! r' ! c' = Some t) = (r' = r \<and> c' = c)))"

definition fields_match :: "nat \<Rightarrow> game \<Rightarrow> bool" where
  "fields_match n s \<longleftrightarrow>
     (\<forall>r<n. \<forall>c<n. \<forall>t. grid s ! r ! c = Some t \<longrightarrow>
        (\<exists>ti. tiles s t = Some ti \<and> row ti = r \<and> col ti = c))"

definition grid_inv :: "nat \<Rightarrow> game \<Rightarrow> bool" where
  "grid_inv n s \<longleftrightarrow> shape n s \<and> one_blank n s \<and> each_tile_once n s \<and> fields_match n s"


text \<open>Two tiles are orthogonal neighbours: same row and adjacent columns, or the reverse.\<close>

definition adjacent :: "nat \<Rightarrow> nat \<Rightarrow> nat \<Rightarrow> nat \<Rightarrow> bool" where
  "adjacent r c r' c' \<longleftrightarrow>
     (r' = r \<and> (c' = c + 1 \<or> c' + 1 = c)) \<or> (c' = c \<and> (r' = r + 1 \<or> r' + 1 = r))"

subsection \<open>Runs of events and concrete states\<close>

text \<open>Events are handled one at a time, each to completion; a throw ends the run.\<close>

fun run :: "nat \<Rightarrow> game \<Rightarrow> event list \<Rightarrow> error + game" where
  "run gridSize s [] = Inr s"
| "run gridSize s (ev # evs) =
     (case fire gridSize s ev of Inl e \<Rightarrow> Inl e | Inr s' \<Rightarrow> run gridSize s' evs)"

text \<open>
  A 3 by 3 game one move from the solved picture: the blank is at (0, 1) and the tile
  showing frame 1 is to its right, at (0, 2); every other tile is at home.
\<close>

definition almost_solved :: game where
  "almost_solved =
     \<lparr>grid = [[Some 0, None, Some 1], [Some 2, Some 3, Some 4], [Some 5, Some 6, Some 7]],
      tiles = [0 \<mapsto> \<lparr>frame = Some 0, row = 0, col = 0\<rparr>,
               1 \<mapsto> \<lparr>frame = Some 1, row = 0, col = 2\<rparr>,
               2 \<mapsto> \<lparr>frame = Some 3, row = 1, col = 0\<rparr>,
               3 \<mapsto> \<lparr>frame = Some 4, row = 1, col = 1\<rparr>,
               4 \<mapsto> \<lparr>frame = Some 5, row = 1, col = 2\<rparr>,
               5 \<mapsto> \<lparr>frame = Some 6, row = 2, col = 0\<rparr>,
               6 \<mapsto> \<lparr>frame = Some 7, row = 2, col = 1\<rparr>,
               7 \<mapsto> \<lparr>frame = Some 8, row = 2, col = 2\<rparr>],
      input_on = True, bgm_playing = True, noot_playing = False,
      tweens = [], slide_snd = 1\<rparr>"

text \<open>The same game after the tile showing frame 1 was clicked: it has moved to (0, 1).\<close>

definition after_move :: game where
  "after_move =
     almost_solved
       \<lparr>tweens := [1],
        grid := [[Some 0, Some 1, None], [Some 2, Some 3, Some 4], [Some 5, Some 6, Some 7]],
        tiles := (tiles almost_solved)(1 \<mapsto> \<lparr>frame = Some 1, row = 0, col = 1\<rparr>),
        slide_snd := 2\<rparr>"

text \<open>
  A 3 by 3 game whose first row is in place (frames 0 and 1, then the blank) while the
  second row shows the frames 4, 5, 3: the scene that \<open>create\<close> builds from the list
  8, 7, 6, 3, 5, 4, 1, 0.
\<close>

definition first_row_done :: game where
  "first_row_done = create 3 [8, 7, 6, 3, 5, 4, 1, 0]"


section \<open>Auxiliary notions for the proofs\<close>

text \<open>The exchange of the tile numbers 0 and 1, as a function on numbers.\<close>

definition sw01 :: "nat \<Rightarrow> nat" where
  "sw01 x = (if x = 0 then 1 else if x = 1 then 0 else x)"

text \<open>How many entries of a list are below a given number.\<close>

definition smaller :: "nat \<Rightarrow> nat list \<Rightarrow> nat" where
  "smaller x xs = length (filter (\<lambda>y. x > y) xs)"

section \<open>The shuffle: permutation, swap and parity\<close>

lemma mset_shuffle_from:
  "i < length xs \<or> i = 0 \<Longrightarrow> mset (shuffle_from rnd i xs) = mset xs"
proof (induction i arbitrary: xs)
  case 0
  then show ?case by simp
next
  case (Suc i)
  then have len: "Suc i < length xs" by simp
  let ?j = "rnd (Suc i) mod (Suc i + 1)"
  have j: "?j < length xs" 
  proof -
    have "?j < Suc i + 1" by (rule mod_less_divisor) simp
    with len show ?thesis by linarith
  qed
  let ?ys = "xs[Suc i := xs ! ?j, ?j := xs ! Suc i]"
  have "mset ?ys = mset xs" using mset_swap [OF j len] by simp
  moreover have "mset (shuffle_from rnd i ?ys) = mset ?ys"
    using len by (intro Suc.IH) simp
  ultimately show ?case by (simp add: Let_def)
qed

lemma mset_Shuffle: "mset (Shuffle rnd xs) = mset xs"
  unfolding Shuffle_def by (rule mset_shuffle_from) (cases xs; simp)

lemma tiles_initial:
  assumes "0 < n"
  shows "distinct (Remove (NumberArray 0 (n * n - 1)) (n - 1))"
    and "set (Remove (NumberArray 0 (n * n - 1)) (n - 1)) = {0..<n * n} - {n - 1}"
    and "length (Remove (NumberArray 0 (n * n - 1)) (n - 1)) = n * n - 1"
proof -
  have pos: "0 < n * n" using assms by simp
  then have S: "Suc (n * n - Suc 0) = n * n" by simp
  have le: "n - 1 < n * n" 
  proof -
    have "n - 1 < n" using assms by simp
    also have "n \<le> n * n" by (rule le_square)
    finally show ?thesis .
  qed
  show "distinct (Remove (NumberArray 0 (n * n - 1)) (n - 1))"
    by (simp add: Remove_def NumberArray_def)
  show "set (Remove (NumberArray 0 (n * n - 1)) (n - 1)) = {0..<n * n} - {n - 1}"
    by (simp add: Remove_def NumberArray_def S del: upt_Suc)
  show "length (Remove (NumberArray 0 (n * n - 1)) (n - 1)) = n * n - 1"
    using le by (simp add: Remove_def NumberArray_def S length_remove1 del: upt_Suc)
qed

lemma shuffled_props:
  assumes "0 < n"
  shows "distinct (shuffled rnd n)"
    and "set (shuffled rnd n) = {0..<n * n} - {n - 1}"
    and "length (shuffled rnd n) = n * n - 1"
proof -
  let ?xs = "Remove (NumberArray 0 (n * n - 1)) (n - 1)"
  have m: "mset (shuffled rnd n) = mset ?xs" by (simp add: shuffled_def mset_Shuffle)
  show "distinct (shuffled rnd n)" using tiles_initial(1)[OF assms] m by (metis mset_eq_imp_distinct_iff)
  show "set (shuffled rnd n) = {0..<n * n} - {n - 1}" using tiles_initial(2)[OF assms] m by (metis mset_eq_setD)
  show "length (shuffled rnd n) = n * n - 1" using tiles_initial(3)[OF assms] m by (metis mset_eq_length)
qed

lemma solvable_zero_iff:
  "solvable n xs = 0 \<longleftrightarrow> (even n \<longleftrightarrow> even (inversions xs))"
proof -
  have "n mod 2 = 0 \<or> n mod 2 = 1" by presburger
  moreover have "inversions xs mod 2 = 0 \<or> inversions xs mod 2 = 1" by presburger
  ultimately show ?thesis unfolding solvable_def
    by (auto simp: even_iff_mod_2_eq_zero)
qed



lemma indexOf_Some:
  "x \<in> set xs \<Longrightarrow> \<exists>i. indexOf xs x = Some i \<and> i < length xs \<and> xs ! i = x"
  by (induction xs) auto

lemma indexOf_None: "x \<notin> set xs \<Longrightarrow> indexOf xs x = None"
  by (induction xs) auto

lemma Swap_distinct:
  assumes d: "distinct xs" and a: "a \<in> set xs" and b: "b \<in> set xs" and ab: "a \<noteq> b"
  shows "Swap xs a b = Inr (map (\<lambda>x. if x = a then b else if x = b then a else x) xs)"
proof -
  obtain i where i: "indexOf xs a = Some i" "i < length xs" "xs ! i = a"
    using indexOf_Some [OF a] by blast
  obtain j where j: "indexOf xs b = Some j" "j < length xs" "xs ! j = b"
    using indexOf_Some [OF b] by blast
  have ij: "i \<noteq> j" using i j ab by auto
  have "xs[i := b, j := a] = map (\<lambda>x. if x = a then b else if x = b then a else x) xs"
  proof (rule nth_equalityI)
    show "length (xs[i := b, j := a]) = length (map (\<lambda>x. if x = a then b else if x = b then a else x) xs)"
      by simp
  next
    fix k assume "k < length (xs[i := b, j := a])"
    then have k: "k < length xs" by simp
    have ka: "xs ! k = a \<longleftrightarrow> k = i" using d k i nth_eq_iff_index_eq by blast
    have kb: "xs ! k = b \<longleftrightarrow> k = j" using d k j nth_eq_iff_index_eq by blast
    show "xs[i := b, j := a] ! k = map (\<lambda>x. if x = a then b else if x = b then a else x) xs ! k"
      using k i j ij ka kb ab by (simp add: nth_list_update)
  qed
  then show ?thesis using i j ab by (simp add: Swap_def)
qed


lemma inversions_Cons: "inversions (x # xs) = smaller x xs + inversions xs"
  by (simp add: smaller_def)

lemma smaller_Nil: "smaller x [] = 0"
  by (simp add: smaller_def)

lemma smaller_Cons: "smaller x (y # ys) = (if y < x then 1 else 0) + smaller x ys"
  by (simp add: smaller_def)

lemma smaller_sw01_ge2: "2 \<le> x \<Longrightarrow> smaller x (map sw01 xs) = smaller x xs"
  by (induction xs) (auto simp: sw01_def smaller_Nil smaller_Cons)

lemma smaller_0: "smaller 0 xs = 0"
  by (simp add: smaller_def)

lemma smaller_1:
  "distinct xs \<Longrightarrow> smaller (Suc 0) xs = (if 0 \<in> set xs then 1 else 0)"
proof (induction xs)
  case Nil
  then show ?case by (simp add: smaller_Nil)
next
  case (Cons a xs)
  show ?case
  proof (cases "a = 0")
    case True
    then show ?thesis using Cons by (simp add: smaller_Cons)
  next
    case False
    then show ?thesis using Cons by (simp add: smaller_Cons)
  qed
qed

lemma smaller_1_sw01:
  "distinct xs \<Longrightarrow> smaller (Suc 0) (map sw01 xs) = (if Suc 0 \<in> set xs then 1 else 0)"
proof (induction xs)
  case Nil
  then show ?case by (simp add: smaller_Nil)
next
  case (Cons a xs)
  show ?case
  proof (cases "a = Suc 0")
    case True
    then show ?thesis using Cons by (simp add: smaller_Cons sw01_def)
  next
    case False
    then show ?thesis using Cons by (simp add: smaller_Cons sw01_def)
  qed
qed

lemma inversions_sw01_parity:
  "distinct xs \<Longrightarrow>
   even (inversions (map sw01 xs)) \<longleftrightarrow> (even (inversions xs) \<noteq> (0 \<in> set xs \<and> 1 \<in> set xs))"
proof (induction xs)
  case Nil
  then show ?case by simp
next
  case (Cons x xs)
  then have d: "distinct xs" and nx: "x \<notin> set xs" by simp_all
  note IH = Cons.IH [OF d]
  have unf: "inversions (map sw01 (x # xs)) = smaller (sw01 x) (map sw01 xs) + inversions (map sw01 xs)"
    by (simp only: list.map inversions_Cons)
  have unf': "inversions (x # xs) = smaller x xs + inversions xs"
    by (rule inversions_Cons)
  consider "x = 0" | "x = 1" | "2 \<le> x" by linarith
  then show ?case
  proof cases
    case 1
    have "sw01 x = 1" using 1 by (simp add: sw01_def)
    then show ?thesis unfolding unf unf' using 1 IH nx 
      by (simp add: smaller_1_sw01[OF d] smaller_0)
  next
    case 2
    have "sw01 x = 0" using 2 by (simp add: sw01_def)
    then show ?thesis unfolding unf unf' using 2 IH nx
      by (simp add: smaller_1[OF d] smaller_0)
  next
    case 3
    have "sw01 x = x" using 3 by (simp add: sw01_def)
    then show ?thesis unfolding unf unf' using 3 IH nx
      by (auto simp add: smaller_sw01_ge2)
  qed
qed


lemma shuffled_has_0_1:
  assumes "3 \<le> n"
  shows "0 \<in> set (shuffled rnd n)" and "Suc 0 \<in> set (shuffled rnd n)"
proof -
  have pos: "0 < n" using assms by simp
  have "n \<le> n * n" by (rule le_square)
  then have big: "Suc 0 < n * n" using assms by linarith
  show "0 \<in> set (shuffled rnd n)"
    using assms big by (simp add: shuffled_props(2) [OF pos])
  show "Suc 0 \<in> set (shuffled rnd n)"
    using assms big by (simp add: shuffled_props(2) [OF pos])
qed

lemma Swap_shuffled:
  assumes "3 \<le> n"
  shows "Swap (shuffled rnd n) 0 1 = Inr (map sw01 (shuffled rnd n))"
proof -
  have pos: "0 < n" using assms by simp
  have "Swap (shuffled rnd n) 0 (Suc 0) =
        Inr (map (\<lambda>x. if x = 0 then Suc 0 else if x = Suc 0 then 0 else x) (shuffled rnd n))"
    using shuffled_props(1) [OF pos] shuffled_has_0_1 [OF assms]
    by (intro Swap_distinct) simp_all
  moreover have "(\<lambda>x. if x = 0 then Suc 0 else if x = Suc 0 then 0 else x) = sw01"
    by (rule ext) (simp add: sw01_def)
  ultimately show ?thesis by simp
qed

lemma Swap_returns:
  assumes "Swap xs a b = Inr ys" and "a \<noteq> b"
  shows "a \<in> set xs \<and> b \<in> set xs"
proof -
  have ia: "indexOf xs a \<noteq> None"
    using assms by (auto simp: Swap_def split: option.splits)
  have ib: "indexOf xs b \<noteq> None"
    using assms by (auto simp: Swap_def split: option.splits)
  have "a \<in> set xs"
  proof (rule ccontr)
    assume "a \<notin> set xs"
    then have "indexOf xs a = None" by (rule indexOf_None)
    then show False using ia by simp
  qed
  moreover have "b \<in> set xs"
  proof (rule ccontr)
    assume "b \<notin> set xs"
    then have "indexOf xs b = None" by (rule indexOf_None)
    then show False using ib by simp
  qed
  ultimately show ?thesis by simp
qed

lemma inj_sw01: "inj sw01"
  by (rule injI) (auto simp: sw01_def split: if_splits)

lemma set_map_sw01:
  "0 \<in> set xs \<Longrightarrow> Suc 0 \<in> set xs \<Longrightarrow> set (map sw01 xs) = set xs"
  by (auto simp: sw01_def image_iff split: if_splits)

section \<open>The grid: accesses, slides and the invariant\<close>

lemma cell_in:
  "shape n s \<Longrightarrow> r < n \<Longrightarrow> c < n \<Longrightarrow> cell (grid s) r c = Inr (grid s ! r ! c)"
  by (simp add: shape_def cell_def js_get_def)

lemma and_blank_in:
  "shape n s \<Longrightarrow> (cond \<Longrightarrow> r < n \<and> c < n) \<Longrightarrow>
   and_blank cond (grid s) r c = Inr (cond \<and> grid s ! r ! c = None)"
  by (cases cond) (simp_all add: and_blank_def cell_in)

lemma set_cell_in:
  "length g = n \<Longrightarrow> \<forall>r<n. length (g ! r) = n \<Longrightarrow> r < n \<Longrightarrow> c < n \<Longrightarrow>
   set_cell g r c v = Inr (g[r := (g ! r)[c := v]])"
  by (simp add: set_cell_def js_set_def)

lemma upd2_length:
  "length (g[r := (g ! r)[c := v]]) = length g"
  by simp

lemma upd2_row_length:
  "a < length g \<Longrightarrow> length (g[r := (g ! r)[c := v]] ! a) = length (g ! a)"
  by (cases "a = r") simp_all

lemma upd2_nth:
  "a < length g \<Longrightarrow> b < length (g ! a) \<Longrightarrow>
   g[r := (g ! r)[c := v]] ! a ! b = (if a = r \<and> b = c then v else g ! a ! b)"
  by (cases "a = r") (auto simp: nth_list_update)

lemma slideTile_in:
  assumes sh: "shape n s" and t: "tiles s t = Some ti"
    and rc: "row ti < n" "col ti < n" and new: "r' < n" "c' < n"
  shows "\<exists>s'. slideTile s t r' c' = Inr s' \<and> shape n s' \<and>
           tiles s' = (tiles s)(t \<mapsto> ti\<lparr>row := r', col := c'\<rparr>) \<and>
           (\<forall>a<n. \<forall>b<n. grid s' ! a ! b =
              (if a = row ti \<and> b = col ti then None
               else if a = r' \<and> b = c' then Some t else grid s ! a ! b)) \<and>
           input_on s' = input_on s \<and> bgm_playing s' = bgm_playing s \<and>
           noot_playing s' = noot_playing s \<and> tweens s' = tweens s @ [t]"
proof -
  let ?g = "grid s"
  let ?g1 = "?g[r' := (?g ! r')[c' := Some t]]"
  let ?g2 = "?g1[row ti := (?g1 ! row ti)[col ti := None]]"
  have len: "length ?g = n" and rows: "\<forall>r<n. length (?g ! r) = n"
    using sh by (simp_all add: shape_def)
  have len1: "length ?g1 = n" using len by simp
  have rows1: "\<forall>r<n. length (?g1 ! r) = n"
    using len rows by (simp add: upd2_row_length)
  have len2: "length ?g2 = n" using len1 by simp
  have rows2: "\<forall>r<n. length (?g2 ! r) = n"
    using len1 rows1 upd2_row_length [of _ ?g1] by simp
  have c1: "set_cell ?g r' c' (Some t) = Inr ?g1"
    using len rows new by (rule set_cell_in)
  have c2: "set_cell ?g1 (row ti) (col ti) None = Inr ?g2"
    using len1 rows1 rc by (rule set_cell_in)
  let ?s' = "s\<lparr>tweens := tweens s @ [t], grid := ?g2,
               tiles := (tiles s)(t \<mapsto> ti\<lparr>row := r', col := c'\<rparr>),
               slide_snd := slide_snd s + 1\<rparr>"
  have res: "slideTile s t r' c' = Inr ?s'"
    using t c1 c2 by (simp add: slideTile_def)
  have cells: "\<forall>a<n. \<forall>b<n. ?g2 ! a ! b =
              (if a = row ti \<and> b = col ti then None
               else if a = r' \<and> b = c' then Some t else ?g ! a ! b)"
  proof (intro allI impI)
    fix a b assume a: "a < n" and b: "b < n"
    have e1: "?g2 ! a ! b = (if a = row ti \<and> b = col ti then None else ?g1 ! a ! b)"
      using a b len1 rows1 by (intro upd2_nth) simp_all
    have e2: "?g1 ! a ! b = (if a = r' \<and> b = c' then Some t else ?g ! a ! b)"
      using a b len rows by (intro upd2_nth) simp_all
    show "?g2 ! a ! b =
              (if a = row ti \<and> b = col ti then None
               else if a = r' \<and> b = c' then Some t else ?g ! a ! b)"
      by (simp only: e1 e2)
  qed
  have "shape n ?s'" using len2 rows2 by (simp add: shape_def)
  then show ?thesis using res cells by simp
qed

lemma tile_pos:
  assumes inv: "grid_inv n s" and t: "tiles s t = Some ti"
  shows "row ti < n \<and> col ti < n \<and> grid s ! row ti ! col ti = Some t"
proof -
  have "t \<in> dom (tiles s)" using t by blast
  then obtain r c where rc: "r < n" "c < n"
    and u: "\<forall>r'<n. \<forall>c'<n. (grid s ! r' ! c' = Some t) = (r' = r \<and> c' = c)"
    using inv unfolding grid_inv_def each_tile_once_def by blast
  have here: "grid s ! r ! c = Some t" using rc u by simp
  have "\<exists>ti'. tiles s t = Some ti' \<and> row ti' = r \<and> col ti' = c"
    using inv rc here unfolding grid_inv_def fields_match_def by blast
  then have "row ti = r" "col ti = c" using t by auto
  then show ?thesis using rc here by simp
qed

lemma slide_inv:
  assumes inv: "grid_inv n s" and t: "tiles s t = Some ti"
    and new: "r' < n" "c' < n" and blank: "grid s ! r' ! c' = None"
    and res: "slideTile s t r' c' = Inr s'"
  shows "grid_inv n s'"
proof -
  note pos = tile_pos [OF inv t]
  have sh: "shape n s" using inv by (simp add: grid_inv_def)
  obtain s'' where s'': "slideTile s t r' c' = Inr s''" "shape n s''"
      "tiles s'' = (tiles s)(t \<mapsto> ti\<lparr>row := r', col := c'\<rparr>)"
      "\<forall>a<n. \<forall>b<n. grid s'' ! a ! b =
              (if a = row ti \<and> b = col ti then None
               else if a = r' \<and> b = c' then Some t else grid s ! a ! b)"
    using slideTile_in [OF sh t _ _ new] pos by blast
  have eq: "s'' = s'" using s''(1) res by simp
  note sh' = s''(2) [unfolded eq] and tl' = s''(3) [unfolded eq] and g' = s''(4) [unfolded eq]
  have ne: "\<not> (row ti = r' \<and> col ti = c')" using pos blank by auto
  obtain br bc where b: "br < n" "bc < n"
    and bu: "\<forall>r<n. \<forall>c<n. (grid s ! r ! c = None) = (r = br \<and> c = bc)"
    using inv unfolding grid_inv_def one_blank_def by blast
  have bl: "br = r'" "bc = c'" using bu new blank by auto
  have ob: "one_blank n s'"
    unfolding one_blank_def
  proof (intro exI conjI allI impI)
    show "row ti < n" "col ti < n" using pos by simp_all
    fix a b assume ab: "a < n" "b < n"
    show "(grid s' ! a ! b = None) = (a = row ti \<and> b = col ti)"
      using g' ab bu bl ne by auto
  qed
  have eo: "each_tile_once n s'"
    unfolding each_tile_once_def
  proof
    fix u assume "u \<in> dom (tiles s')"
    then have ud: "u = t \<or> u \<in> dom (tiles s)" using tl' by auto
    show "\<exists>r c. r < n \<and> c < n \<and>
            (\<forall>r'<n. \<forall>c'<n. (grid s' ! r' ! c' = Some u) = (r' = r \<and> c' = c))"
    proof (cases "u = t")
      case True
      have tu: "\<forall>a<n. \<forall>b<n. (grid s ! a ! b = Some t) = (a = row ti \<and> b = col ti)"
      proof (intro allI impI)
        fix a b assume ab: "a < n" "b < n"
        show "(grid s ! a ! b = Some t) = (a = row ti \<and> b = col ti)"
        proof
          assume "grid s ! a ! b = Some t"
          then have "\<exists>ti'. tiles s t = Some ti' \<and> row ti' = a \<and> col ti' = b"
            using inv ab unfolding grid_inv_def fields_match_def by blast
          then show "a = row ti \<and> b = col ti" using t by auto
        next
          assume "a = row ti \<and> b = col ti"
          then show "grid s ! a ! b = Some t" using pos by simp
        qed
      qed
      have "\<forall>a<n. \<forall>b<n. (grid s' ! a ! b = Some u) = (a = r' \<and> b = c')"
        using g' tu ne True by auto
      then show ?thesis using new by blast
    next
      case False
      then have "u \<in> dom (tiles s)" using ud by simp
      then obtain ur uc where urc: "ur < n" "uc < n"
        and uu: "\<forall>a<n. \<forall>b<n. (grid s ! a ! b = Some u) = (a = ur \<and> b = uc)"
        using inv unfolding grid_inv_def each_tile_once_def by blast
      have n1: "\<not> (ur = row ti \<and> uc = col ti)"
      proof
        assume "ur = row ti \<and> uc = col ti"
        then have "grid s ! row ti ! col ti = Some u" using uu urc by auto
        then show False using pos False by simp
      qed
      have n2: "\<not> (ur = r' \<and> uc = c')"
      proof
        assume "ur = r' \<and> uc = c'"
        then have "grid s ! r' ! c' = Some u" using uu urc by auto
        then show False using blank by simp
      qed
      have "\<forall>a<n. \<forall>b<n. (grid s' ! a ! b = Some u) = (a = ur \<and> b = uc)"
        using g' uu n1 n2 False by auto
      then show ?thesis using urc by blast
    qed
  qed
  have fm: "fields_match n s'"
    unfolding fields_match_def
  proof (intro allI impI)
    fix a b u assume ab: "a < n" "b < n" and h: "grid s' ! a ! b = Some u"
    show "\<exists>ti'. tiles s' u = Some ti' \<and> row ti' = a \<and> col ti' = b"
    proof (cases "a = r' \<and> b = c'")
      case True
      then have "u = t" using g' ab h ne by auto
      then show ?thesis using tl' True by simp
    next
      case False
      then have old: "grid s ! a ! b = Some u" and nh: "\<not> (a = row ti \<and> b = col ti)"
        using g' ab h by (auto split: if_splits)
      then obtain ti' where ti': "tiles s u = Some ti'" "row ti' = a" "col ti' = b"
        using inv ab unfolding grid_inv_def fields_match_def by blast
      have "u \<noteq> t" using ti' t nh by auto
      then show ?thesis using ti' tl' by simp
    qed
  qed
  show ?thesis using sh' ob eo fm by (simp add: grid_inv_def)
qed



lemma grid_eqI:
  assumes "shape n s" "shape n s'"
    and "\<forall>a<n. \<forall>b<n. grid s ! a ! b = grid s' ! a ! b"
  shows "grid s = grid s'"
proof (rule nth_equalityI)
  show "length (grid s) = length (grid s')" using assms by (simp add: shape_def)
next
  fix a assume "a < length (grid s)"
  then have a: "a < n" using assms(1) by (simp add: shape_def)
  show "grid s ! a = grid s' ! a"
  proof (rule nth_equalityI)
    show "length (grid s ! a) = length (grid s' ! a)" using assms a by (simp add: shape_def)
  next
    fix b assume "b < length (grid s ! a)"
    then have "b < n" using assms(1) a by (simp add: shape_def)
    then show "grid s ! a ! b = grid s' ! a ! b" using assms(3) a by simp
  qed
qed

lemma grid_invI:
  assumes sh: "shape n s" and fm: "fields_match n s"
    and at: "\<forall>t ti. tiles s t = Some ti \<longrightarrow>
               row ti < n \<and> col ti < n \<and> grid s ! row ti ! col ti = Some t"
    and b: "br < n" "bc < n"
    and bu: "\<forall>r<n. \<forall>c<n. (grid s ! r ! c = None) = (r = br \<and> c = bc)"
  shows "grid_inv n s"
proof -
  have ob: "one_blank n s" unfolding one_blank_def using b bu by blast
  have eo: "each_tile_once n s"
    unfolding each_tile_once_def
  proof
    fix t assume "t \<in> dom (tiles s)"
    then obtain ti where t: "tiles s t = Some ti" by blast
    then have pos: "row ti < n" "col ti < n" "grid s ! row ti ! col ti = Some t"
      using at by blast+
    have "\<forall>a<n. \<forall>b<n. (grid s ! a ! b = Some t) = (a = row ti \<and> b = col ti)"
    proof (intro allI impI)
      fix a b assume ab: "a < n" "b < n"
      show "(grid s ! a ! b = Some t) = (a = row ti \<and> b = col ti)"
      proof
        assume "grid s ! a ! b = Some t"
        then have "\<exists>ti'. tiles s t = Some ti' \<and> row ti' = a \<and> col ti' = b"
          using fm ab unfolding fields_match_def by blast
        then show "a = row ti \<and> b = col ti" using t by auto
      next
        assume "a = row ti \<and> b = col ti"
        then show "grid s ! a ! b = Some t" using pos by simp
      qed
    qed
    then show "\<exists>r c. r < n \<and> c < n \<and>
            (\<forall>r'<n. \<forall>c'<n. (grid s ! r' ! c' = Some t) = (r' = r \<and> c' = c))"
      using pos by blast
  qed
  show ?thesis using sh ob eo fm by (simp add: grid_inv_def)
qed

lemma almost_solved_shape: "shape 3 almost_solved"
  by (simp add: shape_def almost_solved_def numeral_3_eq_3 All_less_Suc)

lemma almost_solved_inv: "grid_inv 3 almost_solved"
proof (rule grid_invI [where br = 0 and bc = 1])
  show "shape 3 almost_solved" by (rule almost_solved_shape)
  show "fields_match 3 almost_solved"
    by (simp add: fields_match_def almost_solved_def numeral_3_eq_3 All_less_Suc)
  show "\<forall>t ti. tiles almost_solved t = Some ti \<longrightarrow>
               row ti < 3 \<and> col ti < 3 \<and> grid almost_solved ! row ti ! col ti = Some t"
    by (auto simp add: almost_solved_def split: if_splits)
  show "(0::nat) < 3" "(1::nat) < 3" by simp_all
  show "\<forall>r<3. \<forall>c<3. (grid almost_solved ! r ! c = None) = (r = 0 \<and> c = 1)"
    by (simp add: almost_solved_def numeral_3_eq_3 All_less_Suc)
qed

lemma fire_almost_solved: "fire 3 almost_solved (GameObjectDown 1) = Inr after_move"
  by (simp add: tileClicked_def slideTile_def and_blank_def cell_def set_cell_def js_get_def
      js_set_def almost_solved_def after_move_def)

section \<open>create: the order of the placement\<close>

lemma frames_in_append: "frames_in hp (xs @ ys) = frames_in hp xs @ frames_in hp ys"
  by (simp add: frames_in_def)

lemma frames_in_cong:
  "(\<forall>t. Some t \<in> set cs \<longrightarrow> hp' t = hp t) \<Longrightarrow> frames_in hp' cs = frames_in hp cs"
  by (induction cs) (auto simp: frames_in_def split: option.splits)

lemma fill_row_spec:
  assumes "\<forall>t. Some t \<in> set rw \<longrightarrow> t < nx"
    and "length (filter (\<lambda>j. 0 < i \<or> j < n - 1) js) \<le> length q"
  shows "\<exists>rw' hp'.
           fill_row n i js (rw, rev q, hp, nx) =
             (rw', rev (drop (length (filter (\<lambda>j. 0 < i \<or> j < n - 1) js)) q), hp',
              nx + length (filter (\<lambda>j. 0 < i \<or> j < n - 1) js)) \<and>
           (\<forall>t. Some t \<in> set rw' \<longrightarrow> t < nx + length (filter (\<lambda>j. 0 < i \<or> j < n - 1) js)) \<and>
           (\<forall>t<nx. hp' t = hp t) \<and>
           frames_in hp' rw' =
             frames_in hp rw @ map Some (take (length (filter (\<lambda>j. 0 < i \<or> j < n - 1) js)) q) \<and>
           map (\<lambda>c. c = None) rw' =
             map (\<lambda>c. c = None) rw @ map (\<lambda>j. \<not> (0 < i \<or> j < n - 1)) js"
  using assms
proof (induction js arbitrary: rw q hp nx)
  case Nil
  then show ?case by simp
next
  case (Cons j js)
  let ?m = "length (filter (\<lambda>j. 0 < i \<or> j < n - 1) js)"
  show ?case
  proof (cases "0 < i \<or> j < n - 1")
    case True
    then have "Suc ?m \<le> length q" using Cons.prems(2) by simp
    then obtain x q' where q: "q = x # q'" and m': "?m \<le> length q'"
      by (cases q) auto
    let ?T = "\<lparr>frame = Some x, row = i, col = j\<rparr>"
    let ?hp1 = "hp(nx \<mapsto> ?T)"
    have refs: "\<forall>t. Some t \<in> set (rw @ [Some nx]) \<longrightarrow> t < Suc nx"
      using Cons.prems(1) by (auto simp: less_Suc_eq)
    obtain rw' hp' where IH:
      "fill_row n i js (rw @ [Some nx], rev q', ?hp1, Suc nx) =
         (rw', rev (drop ?m q'), hp', Suc nx + ?m)"
      "\<forall>t. Some t \<in> set rw' \<longrightarrow> t < Suc nx + ?m"
      "\<forall>t<Suc nx. hp' t = ?hp1 t"
      "frames_in hp' rw' = frames_in ?hp1 (rw @ [Some nx]) @ map Some (take ?m q')"
      "map (\<lambda>c. c = None) rw' =
         map (\<lambda>c. c = None) (rw @ [Some nx]) @ map (\<lambda>j. \<not> (0 < i \<or> j < n - 1)) js"
      using Cons.IH [OF refs m', of ?hp1] by blast
    have step: "fill_row n i (j # js) (rw, rev q, hp, nx) =
                fill_row n i js (rw @ [Some nx], rev q', ?hp1, Suc nx)"
      using True q by (simp add: pop_def)
    have old: "frames_in ?hp1 rw = frames_in hp rw"
      using Cons.prems(1) by (intro frames_in_cong) auto
    have fr: "frames_in ?hp1 (rw @ [Some nx]) = frames_in hp rw @ [Some x]"
      using old by (simp add: frames_in_append) (simp add: frames_in_def)
    have stable: "\<forall>t<nx. hp' t = hp t" using IH(3) by (auto simp: less_Suc_eq)
    show ?thesis
      using True q step IH(1,2,4,5) fr stable by simp
  next
    case False
    have refs: "\<forall>t. Some t \<in> set (rw @ [None]) \<longrightarrow> t < nx"
      using Cons.prems(1) by auto
    have m': "?m \<le> length q" using Cons.prems(2) False by simp
    obtain rw' hp' where IH:
      "fill_row n i js (rw @ [None], rev q, hp, nx) = (rw', rev (drop ?m q), hp', nx + ?m)"
      "\<forall>t. Some t \<in> set rw' \<longrightarrow> t < nx + ?m"
      "\<forall>t<nx. hp' t = hp t"
      "frames_in hp' rw' = frames_in hp (rw @ [None]) @ map Some (take ?m q)"
      "map (\<lambda>c. c = None) rw' =
         map (\<lambda>c. c = None) (rw @ [None]) @ map (\<lambda>j. \<not> (0 < i \<or> j < n - 1)) js"
      using Cons.IH [OF refs m', of hp] by blast
    have fr: "frames_in hp (rw @ [None]) = frames_in hp rw"
      by (simp add: frames_in_append) (simp add: frames_in_def)
    show ?thesis using False IH fr by simp
  qed
qed


lemma fill_grid_spec:
  assumes "\<forall>t. Some t \<in> set (concat g) \<longrightarrow> t < nx"
    and "sum_list (map (\<lambda>i. length (filter (\<lambda>j. 0 < i \<or> j < n - 1) [0..<n])) is) \<le> length q"
  shows "\<exists>g' hp'.
           fill_grid n is (g, rev q, hp, nx) =
             (g', rev (drop (sum_list (map (\<lambda>i. length (filter (\<lambda>j. 0 < i \<or> j < n - 1) [0..<n])) is)) q),
              hp', nx + sum_list (map (\<lambda>i. length (filter (\<lambda>j. 0 < i \<or> j < n - 1) [0..<n])) is)) \<and>
           (\<forall>t. Some t \<in> set (concat g') \<longrightarrow>
                t < nx + sum_list (map (\<lambda>i. length (filter (\<lambda>j. 0 < i \<or> j < n - 1) [0..<n])) is)) \<and>
           (\<forall>t<nx. hp' t = hp t) \<and>
           frames_in hp' (concat g') =
             frames_in hp (concat g) @
             map Some (take (sum_list (map (\<lambda>i. length (filter (\<lambda>j. 0 < i \<or> j < n - 1) [0..<n])) is)) q) \<and>
           map (map (\<lambda>c. c = None)) g' =
             map (map (\<lambda>c. c = None)) g @
             map (\<lambda>i. map (\<lambda>j. \<not> (0 < i \<or> j < n - 1)) [0..<n]) is"
  using assms
proof (induction "is" arbitrary: g q hp nx)
  case Nil
  then show ?case by simp
next
  case (Cons i "is")
  let ?cnt = "\<lambda>i. length (filter (\<lambda>j. 0 < i \<or> j < n - 1) [0..<n])"
  let ?m = "?cnt i"
  let ?M = "sum_list (map ?cnt is)"
  have tot: "?m + ?M \<le> length q" using Cons.prems(2) by simp
  then have m: "?m \<le> length q" by simp
  have e: "\<forall>t. Some t \<in> set ([]::ref option list) \<longrightarrow> t < nx" by simp
  obtain rw hp1 where R:
    "fill_row n i [0..<n] ([], rev q, hp, nx) = (rw, rev (drop ?m q), hp1, nx + ?m)"
    "\<forall>t. Some t \<in> set rw \<longrightarrow> t < nx + ?m"
    "\<forall>t<nx. hp1 t = hp t"
    "frames_in hp1 rw = frames_in hp [] @ map Some (take ?m q)"
    "map (\<lambda>c. c = None) rw =
       map (\<lambda>c. c = None) ([]::ref option list) @ map (\<lambda>j. \<not> (0 < i \<or> j < n - 1)) [0..<n]"
    using fill_row_spec [OF e m, of hp] by blast
  have refs: "\<forall>t. Some t \<in> set (concat (g @ [rw])) \<longrightarrow> t < nx + ?m"
    using Cons.prems(1) R(2) by (auto simp: trans_less_add1)
  have M: "?M \<le> length (drop ?m q)" using tot by simp
  obtain g' hp' where G:
    "fill_grid n is (g @ [rw], rev (drop ?m q), hp1, nx + ?m) =
       (g', rev (drop ?M (drop ?m q)), hp', nx + ?m + ?M)"
    "\<forall>t. Some t \<in> set (concat g') \<longrightarrow> t < nx + ?m + ?M"
    "\<forall>t<nx + ?m. hp' t = hp1 t"
    "frames_in hp' (concat g') =
       frames_in hp1 (concat (g @ [rw])) @ map Some (take ?M (drop ?m q))"
    "map (map (\<lambda>c. c = None)) g' =
       map (map (\<lambda>c. c = None)) (g @ [rw]) @
       map (\<lambda>i. map (\<lambda>j. \<not> (0 < i \<or> j < n - 1)) [0..<n]) is"
    using Cons.IH [OF refs M, of hp1] by blast
  have step: "fill_grid n (i # is) (g, rev q, hp, nx) =
              fill_grid n is (g @ [rw], rev (drop ?m q), hp1, nx + ?m)"
    using R(1) by simp
  have old: "frames_in hp1 (concat g) = frames_in hp (concat g)"
    using Cons.prems(1) R(3) by (intro frames_in_cong) auto
  have e0: "frames_in hp [] = []" by (simp add: frames_in_def)
  have fr: "frames_in hp' (concat g') =
            frames_in hp (concat g) @ map Some (take (?m + ?M) q)"
    using G(4) old R(4) e0 by (simp add: frames_in_append take_add)
  have dr: "drop ?M (drop ?m q) = drop (?m + ?M) q" by (simp add: add.commute)
  have stable: "\<forall>t<nx. hp' t = hp t" using G(3) R(3) by (auto simp: trans_less_add1)
  have pat: "map (map (\<lambda>c. c = None)) g' =
       map (map (\<lambda>c. c = None)) g @
       map (\<lambda>i. map (\<lambda>j. \<not> (0 < i \<or> j < n - 1)) [0..<n]) (i # is)"
    using G(5) R(5) by simp
  have res: "fill_grid n (i # is) (g, rev q, hp, nx) =
          (g', rev (drop (?m + ?M) q), hp', nx + (?m + ?M))"
    using step G(1) dr by (simp add: add.assoc)
  have refs': "\<forall>t. Some t \<in> set (concat g') \<longrightarrow> t < nx + (?m + ?M)"
    using G(2) by (simp add: add.assoc)
  have sm: "sum_list (map ?cnt (i # is)) = ?m + ?M" by simp
  show ?case
    unfolding sm using res refs' stable fr pat by blast
qed

lemma filter_less_upt: "k \<le> n \<Longrightarrow> filter (\<lambda>j. j < k) [0..<n] = [0..<k]"
  by (induction n) (auto simp: le_Suc_eq)

lemma sum_list_const: "(\<forall>x\<in>set xs. f x = (c::nat)) \<Longrightarrow> sum_list (map f xs) = length xs * c"
  by (induction xs) auto

lemma cells_count:
  assumes "0 < n"
  shows "sum_list (map (\<lambda>i. length (filter (\<lambda>j. 0 < i \<or> j < n - 1) [0..<n])) [0..<n]) = n * n - 1"
proof -
  let ?cnt = "\<lambda>i. length (filter (\<lambda>j. 0 < i \<or> j < n - 1) [0..<n])"
  have split: "[0..<n] = 0 # [Suc 0..<n]" using assms by (simp add: upt_conv_Cons)
  have c0: "?cnt (0::nat) = n - 1" by (simp add: filter_less_upt)
  have "\<forall>i\<in>set [Suc 0..<n]. ?cnt i = n" by simp
  then have rest: "sum_list (map ?cnt [Suc 0..<n]) = (n - 1) * n"
    using sum_list_const [of "[Suc 0..<n]" ?cnt n] by simp
  have "sum_list (map ?cnt [0..<n]) = ?cnt (0::nat) + sum_list (map ?cnt [Suc 0..<n])"
    by (subst split) simp
  also have "\<dots> = (n - 1) + (n - 1) * n" using c0 rest by simp
  also have "\<dots> = n * n - 1" using assms by (cases n) simp_all
  finally show ?thesis .
qed

section \<open>Claims about the shuffle and the grid size\<close>

text \<open>
  C3 (as amended). For a grid size of at least 3, when the shuffled list fails the parity
  test (\<open>solvable\<close> is 0), shuffleGrid returns the shuffled list with the two entries
  whose \<^emph>\<open>values\<close> are 0 and 1 exchanged, wherever they stand in the list: the entry 0
  becomes 1, the entry 1 becomes 0, and every other entry keeps its value and position.
\<close>

theorem shuffleGrid_swaps_tiles_0_and_1:
  assumes "3 \<le> gridSize" and "solvable gridSize (shuffled rnd gridSize) = 0"
  shows "shuffleGrid rnd gridSize =
           Inr (map (\<lambda>x. if x = 0 then 1 else if x = 1 then 0 else x) (shuffled rnd gridSize))"
proof -
  have "(\<lambda>x. if x = 0 then 1 else if x = 1 then 0 else x) = sw01"
    by (rule ext) (simp add: sw01_def)
  then show ?thesis
    using assms Swap_shuffled [OF assms(1), of rnd] by (simp add: shuffleGrid_def)
qed

theorem shuffleGrid_swaps_tiles_0_and_1_witness:
  "(3::nat) \<le> 3 \<and> solvable 3 (shuffled rnd_third 3) = 0 \<and>
   shuffled rnd_third 3 = [3, 1, 0, 4, 5, 6, 7, 8] \<and>
   shuffleGrid rnd_third 3 =
     Inr (map (\<lambda>x. if x = 0 then 1 else if x = 1 then 0 else x) [3, 1, 0, 4, 5, 6, 7, 8])"
proof -
  have h1: "(3::nat) \<le> 3" by simp
  have h2: "solvable 3 (shuffled rnd_third 3) = 0" by code_simp
  have h3: "shuffled rnd_third 3 = [3, 1, 0, 4, 5, 6, 7, 8]" by code_simp
  show ?thesis
    using shuffleGrid_swaps_tiles_0_and_1 [OF h1 h2] h2 h3 by simp
qed

text \<open>
  The claim as written (the entries at indices 0 and 1 are exchanged, nothing else
  changes) fails: for the shuffled list 3,1,0,4,... the entry at index 0 stays and the
  entries at indices 1 and 2 are exchanged.
\<close>

theorem shuffleGrid_swap_counterexample:
  "shuffled rnd_third 3 = [3, 1, 0, 4, 5, 6, 7, 8] \<and>
   solvable 3 [3, 1, 0, 4, 5, 6, 7, 8] = 0 \<and>
   shuffleGrid rnd_third 3 = Inr [3, 0, 1, 4, 5, 6, 7, 8]"
  by code_simp

text \<open>
  C4. For every grid size of at least 2 and every run of the shuffle, a list that
  shuffleGrid returns has an inversion count that is even when the size is odd and odd
  when the size is even; and for every size of at least 3 (the sizes the game runs
  with) shuffleGrid does return a list.
\<close>

theorem shuffleGrid_parity:
  assumes "2 \<le> gridSize"
  shows "(\<forall>ys. shuffleGrid rnd gridSize = Inr ys \<longrightarrow>
              (even (inversions ys) \<longleftrightarrow> odd gridSize)) \<and>
         (3 \<le> gridSize \<longrightarrow> (\<exists>ys. shuffleGrid rnd gridSize = Inr ys))"
proof
  have pos: "0 < gridSize" using assms by simp
  let ?xs = "shuffled rnd gridSize"
  show "\<forall>ys. shuffleGrid rnd gridSize = Inr ys \<longrightarrow>
              (even (inversions ys) \<longleftrightarrow> odd gridSize)"
  proof (intro allI impI)
    fix ys assume ret: "shuffleGrid rnd gridSize = Inr ys"
    show "even (inversions ys) \<longleftrightarrow> odd gridSize"
    proof (cases "solvable gridSize ?xs = 0")
      case True
      then have sw: "Swap ?xs 0 (Suc 0) = Inr ys"
        using ret by (simp add: shuffleGrid_def)
      then have mem: "0 \<in> set ?xs" "Suc 0 \<in> set ?xs"
        using Swap_returns [OF sw] by simp_all
      have "Swap ?xs 0 (Suc 0) =
              Inr (map (\<lambda>x. if x = 0 then Suc 0 else if x = Suc 0 then 0 else x) ?xs)"
        using shuffled_props(1) [OF pos, of rnd] mem by (intro Swap_distinct) simp_all
      moreover have "(\<lambda>x. if x = 0 then Suc 0 else if x = Suc 0 then 0 else x) = sw01"
        by (rule ext) (simp add: sw01_def)
      ultimately have ys: "ys = map sw01 ?xs" using sw by simp
      have par: "even gridSize \<longleftrightarrow> even (inversions ?xs)"
        using True by (simp add: solvable_zero_iff)
      have flip: "even (inversions (map sw01 ?xs)) \<longleftrightarrow> \<not> even (inversions ?xs)"
        using inversions_sw01_parity [OF shuffled_props(1) [OF pos], of rnd] mem by simp
      show ?thesis using ys par flip by simp
    next
      case False
      then have "ys = ?xs" using ret by (simp add: shuffleGrid_def)
      moreover have "even gridSize \<longleftrightarrow> \<not> even (inversions ?xs)"
        using False by (simp add: solvable_zero_iff)
      ultimately show ?thesis by simp
    qed
  qed
  show "3 \<le> gridSize \<longrightarrow> (\<exists>ys. shuffleGrid rnd gridSize = Inr ys)"
  proof
    assume three: "3 \<le> gridSize"
    show "\<exists>ys. shuffleGrid rnd gridSize = Inr ys"
    proof (cases "solvable gridSize ?xs = 0")
      case True
      then have "shuffleGrid rnd gridSize = Inr (map sw01 ?xs)"
        using Swap_shuffled [OF three, of rnd] by (simp add: shuffleGrid_def)
      then show ?thesis by blast
    next
      case False
      then have "shuffleGrid rnd gridSize = Inr ?xs" by (simp add: shuffleGrid_def)
      then show ?thesis by blast
    qed
  qed
qed

theorem shuffleGrid_parity_witness:
  "(2::nat) \<le> 4 \<and>
   shuffleGrid rnd_first 4 = Inr [0, 2, 4, 5, 6, 7, 8, 9, 10, 11, 12, 13, 14, 15, 1] \<and>
   (even (inversions [0, 2, 4, 5, 6, 7, 8, 9, 10, 11, 12, 13, 14, 15, 1]) \<longleftrightarrow> odd (4::nat)) \<and>
   (3::nat) \<le> 4 \<and> (\<exists>ys. shuffleGrid rnd_first 4 = Inr ys) \<and>
   (2::nat) \<le> 2 \<and> shuffleGrid rnd_second 2 = Inr [2, 0, 3] \<and>
   (even (inversions [2, 0, 3]) \<longleftrightarrow> odd (2::nat))"
proof -
  have r4: "shuffleGrid rnd_first 4 = Inr [0, 2, 4, 5, 6, 7, 8, 9, 10, 11, 12, 13, 14, 15, 1]"
    by code_simp
  have r2: "shuffleGrid rnd_second 2 = Inr [2, 0, 3]"
    by code_simp
  show ?thesis
    using shuffleGrid_parity [of 4 rnd_first] shuffleGrid_parity [of 2 rnd_second] r4 r2
    by simp
qed

text \<open>
  C5 (as amended). For every grid size N of at least 3 and every run of the shuffle,
  shuffleGrid returns a list of exactly N * N - 1 distinct numbers, whose set is
  0, ..., N * N - 1 without the blank's home value N - 1.
\<close>

theorem shuffleGrid_tiles:
  assumes "3 \<le> gridSize"
  shows "\<exists>ys. shuffleGrid rnd gridSize = Inr ys \<and>
              length ys = gridSize * gridSize - 1 \<and> distinct ys \<and>
              set ys = {0..<gridSize * gridSize} - {gridSize - 1}"
proof -
  have pos: "0 < gridSize" using assms by simp
  let ?xs = "shuffled rnd gridSize"
  note P = shuffled_props [OF pos, of rnd]
  show ?thesis
  proof (cases "solvable gridSize ?xs = 0")
    case True
    have res: "shuffleGrid rnd gridSize = Inr (map sw01 ?xs)"
      using True Swap_shuffled [OF assms, of rnd] by (simp add: shuffleGrid_def)
    have "distinct (map sw01 ?xs)"
      using P(1) inj_sw01 by (simp add: distinct_map inj_on_def inj_def)
    moreover have "set (map sw01 ?xs) = set ?xs"
      using shuffled_has_0_1 [OF assms, of rnd] by (rule set_map_sw01)
    ultimately show ?thesis using res P by simp
  next
    case False
    then have "shuffleGrid rnd gridSize = Inr ?xs" by (simp add: shuffleGrid_def)
    then show ?thesis using P by simp
  qed
qed

theorem shuffleGrid_tiles_witness:
  "(3::nat) \<le> 3 \<and>
   (\<exists>ys. shuffleGrid rnd_keep 3 = Inr ys \<and> length ys = 3 * 3 - 1 \<and> distinct ys \<and>
         set ys = {0..<3 * 3} - {3 - 1})"
  using shuffleGrid_tiles [of 3 rnd_keep] by simp

theorem shuffleGrid_tiles_counterexample:
  "shuffled rnd_keep 2 = [0, 2, 3] \<and> shuffleGrid rnd_keep 2 = Inl SwapError"
  by code_simp

text \<open>
  C6 (as amended). An integer size of at least 3 is kept as the grid dimension; an
  integer size below 3, size 2 included, is replaced by 4 and is not rejected.
\<close>

theorem gridSize_init_replaces:
  "(3 \<le> n \<longrightarrow> gridSize_init (Num n) = Inr n) \<and>
   (n < 3 \<longrightarrow> gridSize_init (Num n) = Inr 4)"
  by (simp add: gridSize_init_def)

theorem gridSize_init_replaces_witness:
  "(3::int) \<le> 5 \<and> gridSize_init (Num 5) = Inr 5 \<and>
   (2::int) < 3 \<and> gridSize_init (Num 2) = Inr 4"
  using gridSize_init_replaces [of 5] gridSize_init_replaces [of 2] by simp

text \<open>
  The claim as written fails at the sizes 2 and 1: size 2 is not kept, and size 1 does
  not fail the start of the game.
\<close>

theorem gridSize_init_counterexample:
  "gridSize_init (Num 2) = Inr 4 \<and> gridSize_init (Num 1) = Inr 4"
  by (simp add: gridSize_init_def)

section \<open>Claims about the grid, the moves and the win check\<close>

text \<open>
  C1. The claim: checkWin signals a win exactly when every cell of the whole grid is the
  blank or holds its home tile. The code signals after every row that passes, the first
  row included: in the 3 by 3 game below the first row is in place, the second row is not
  (the picture is not solved), and checkWin stops the input, stops the music and plays
  the win sound. The list the game is built from is one that shuffleGrid returns, and
  the check is reached by moving a tile of the first row away and back.
\<close>

theorem checkWin_first_row_only:
  "grid first_row_done =
     [[Some 0, Some 1, None], [Some 2, Some 3, Some 4], [Some 5, Some 6, Some 7]] \<and>
   placed first_row_done =
     [Some 0, Some 1, Some 4, Some 5, Some 3, Some 6, Some 7, Some 8] \<and>
   \<not> spec_isSolved 3 first_row_done \<and>
   map_sum id input_on (checkWin 3 first_row_done) = Inr False \<and>
   map_sum id bgm_playing (checkWin 3 first_row_done) = Inr False \<and>
   map_sum id noot_playing (checkWin 3 first_row_done) = Inr True \<and>
   shuffleGrid rnd_rows 3 = Inr [8, 7, 6, 3, 5, 4, 1, 0] \<and>
   map_sum id input_on
     (run 3 first_row_done [GameObjectDown 1, GameObjectDown 1, TweenComplete]) = Inr False \<and>
   map_sum id (spec_isSolved 3)
     (run 3 first_row_done [GameObjectDown 1, GameObjectDown 1, TweenComplete]) = Inr False"
  by code_simp

text \<open>
  C2 (as amended). create takes the frames from the \<^emph>\<open>end\<close> of the list that
  shuffleGrid returned (\<open>tileFrames.pop()\<close>): for a list of N * N - 1 entries, the
  tiles read in row-major order show the list reversed, that is the k-th non-blank cell
  holds the entry at index N * N - 2 - k; the grid is a square of side N and its only
  null cell is (0, N - 1).
\<close>

theorem create_places_from_the_end:
  assumes "0 < n" and "length tileFrames = n * n - 1"
  shows "placed (create n tileFrames) = map Some (rev tileFrames) \<and>
         (\<forall>k<n * n - 1. placed (create n tileFrames) ! k = Some (tileFrames ! (n * n - 2 - k))) \<and>
         shape n (create n tileFrames) \<and>
         (\<forall>i<n. \<forall>j<n. (grid (create n tileFrames) ! i ! j = None) = (i = 0 \<and> j = n - 1))"
proof -
  let ?cnt = "\<lambda>i. length (filter (\<lambda>j. 0 < i \<or> j < n - 1) [0..<n])"
  let ?q = "rev tileFrames"
  have M: "sum_list (map ?cnt [0..<n]) = n * n - 1" by (rule cells_count [OF assms(1)])
  have e: "\<forall>t. Some t \<in> set (concat ([]::ref option list list)) \<longrightarrow> t < 0" by simp
  have le: "sum_list (map ?cnt [0..<n]) \<le> length ?q" using M assms(2) by simp
  obtain g' hp' where G:
    "fill_grid n [0..<n] ([], rev ?q, Map.empty, 0) =
       (g', rev (drop (sum_list (map ?cnt [0..<n])) ?q), hp', 0 + sum_list (map ?cnt [0..<n]))"
    "frames_in hp' (concat g') =
       frames_in Map.empty (concat []) @ map Some (take (sum_list (map ?cnt [0..<n])) ?q)"
    "map (map (\<lambda>c. c = None)) g' =
       map (map (\<lambda>c. c = None)) ([]::ref option list list) @ map (\<lambda>i. map (\<lambda>j. \<not> (0 < i \<or> j < n - 1)) [0..<n]) [0..<n]"
    using fill_grid_spec [OF e le, of Map.empty] by blast
  have gr: "grid (create n tileFrames) = g'" and tl: "tiles (create n tileFrames) = hp'"
    using G(1) by (simp_all add: create_def)
  have pl: "placed (create n tileFrames) = map Some ?q"
    using G(2) M assms(2) by (simp add: placed_def gr tl frames_in_def)
  have pat: "map (map (\<lambda>c. c = None)) g' =
             map (\<lambda>i. map (\<lambda>j. \<not> (0 < i \<or> j < n - 1)) [0..<n]) [0..<n]"
    using G(3) by simp
  have len: "length g' = n" using arg_cong [OF pat, of length] by simp
  have row: "map (\<lambda>c. c = None) (g' ! i) = map (\<lambda>j. \<not> (0 < i \<or> j < n - 1)) [0..<n]"
    if "i < n" for i
    using arg_cong [OF pat, of "\<lambda>xs. xs ! i"] that len by simp
  have rlen: "length (g' ! i) = n" if "i < n" for i
    using arg_cong [OF row [OF that], of length] by simp
  have cellp: "(g' ! i ! j = None) = (i = 0 \<and> j = n - 1)" if "i < n" "j < n" for i j
  proof -
    have "(g' ! i ! j = None) = (\<not> (0 < i \<or> j < n - 1))"
      using arg_cong [OF row [OF that(1)], of "\<lambda>xs. xs ! j"] that rlen [OF that(1)] by simp
    then show ?thesis using that by auto
  qed
  have nth: "\<forall>k<n * n - 1. placed (create n tileFrames) ! k = Some (tileFrames ! (n * n - 2 - k))"
  proof (intro allI impI)
    fix k assume k: "k < n * n - 1"
    then have "rev tileFrames ! k = tileFrames ! (length tileFrames - Suc k)"
      using assms(2) by (simp add: rev_nth)
    moreover have "length tileFrames - Suc k = n * n - 2 - k" using assms(2) by simp
    ultimately show "placed (create n tileFrames) ! k = Some (tileFrames ! (n * n - 2 - k))"
      using pl k assms(2) by simp
  qed
  have sh: "shape n (create n tileFrames)" using len rlen by (simp add: shape_def gr)
  show ?thesis using pl nth sh cellp by (simp add: gr)
qed

theorem create_places_from_the_end_witness:
  "(0::nat) < 3 \<and> length [0, 1, 3, 4, 5, 6, 7, 8::nat] = 3 * 3 - 1 \<and>
   placed (create 3 [0, 1, 3, 4, 5, 6, 7, 8]) = map Some (rev [0, 1, 3, 4, 5, 6, 7, 8])"
  using create_places_from_the_end [of 3 "[0, 1, 3, 4, 5, 6, 7, 8]"] by simp

text \<open>
  The claim as written (the k-th entry goes to the k-th non-blank cell) fails: for the
  list 0, 1, 3, ..., 8, which shuffleGrid returns when the shuffle leaves the range as
  it is, the first cell (0, 0) shows frame 8, the last entry.
\<close>

theorem create_order_counterexample:
  "shuffleGrid rnd_keep 3 = Inr [0, 1, 3, 4, 5, 6, 7, 8] \<and>
   placed (create 3 [0, 1, 3, 4, 5, 6, 7, 8]) =
     [Some 8, Some 7, Some 6, Some 5, Some 4, Some 3, Some 1, Some 0] \<and>
   grid (create 3 [0, 1, 3, 4, 5, 6, 7, 8]) =
     [[Some 0, Some 1, None], [Some 2, Some 3, Some 4], [Some 5, Some 6, Some 7]] \<and>
   map_option frame (tiles (create 3 [0, 1, 3, 4, 5, 6, 7, 8]) 0) = Some (Some 8)"
  by code_simp

text \<open>
  C7. When a tile in a square grid is activated and none of its orthogonal neighbours
  inside the grid is the blank, tileClicked returns without an error and the whole state
  (every grid cell, every tile's fields) is unchanged.
\<close>

theorem tileClicked_no_blank_neighbour:
  assumes sh: "shape n s" and t: "tiles s t = Some ti"
    and rc: "row ti < n" "col ti < n"
    and up: "0 < row ti \<longrightarrow> grid s ! (row ti - 1) ! col ti \<noteq> None"
    and down: "row ti + 1 < n \<longrightarrow> grid s ! (row ti + 1) ! col ti \<noteq> None"
    and left: "0 < col ti \<longrightarrow> grid s ! row ti ! (col ti - 1) \<noteq> None"
    and right: "col ti + 1 < n \<longrightarrow> grid s ! row ti ! (col ti + 1) \<noteq> None"
  shows "tileClicked n s t = Inr s"
proof -
  have a1: "and_blank (0 < row ti) (grid s) (row ti - 1) (col ti) = Inr False"
    using up rc by (subst and_blank_in [OF sh]) auto
  have a2: "and_blank (row ti < n - 1) (grid s) (row ti + 1) (col ti) = Inr False"
    using down rc by (subst and_blank_in [OF sh]) auto
  have a3: "and_blank (0 < col ti) (grid s) (row ti) (col ti - 1) = Inr False"
    using left rc by (subst and_blank_in [OF sh]) auto
  have a4: "and_blank (col ti < n - 1) (grid s) (row ti) (col ti + 1) = Inr False"
    using right rc by (subst and_blank_in [OF sh]) auto
  show ?thesis
    by (simp only: tileClicked_def t a1 a2 a3 a4 option.case sum.case bool.case)
qed

theorem tileClicked_no_blank_neighbour_witness:
  "shape 3 almost_solved \<and>
   tiles almost_solved 5 = Some \<lparr>frame = Some 6, row = 2, col = 0\<rparr> \<and>
   grid almost_solved ! 1 ! 0 \<noteq> None \<and> grid almost_solved ! 2 ! 1 \<noteq> None \<and>
   tileClicked 3 almost_solved 5 = Inr almost_solved"
proof -
  have t: "tiles almost_solved 5 = Some \<lparr>frame = Some 6, row = 2, col = 0\<rparr>"
    by (simp add: almost_solved_def)
  have g: "grid almost_solved ! 1 ! 0 \<noteq> None" "grid almost_solved ! 2 ! 1 \<noteq> None"
    by (simp_all add: almost_solved_def)
  have "tileClicked 3 almost_solved 5 = Inr almost_solved"
    using g by (intro tileClicked_no_blank_neighbour [OF almost_solved_shape t]) simp_all
  then show ?thesis using almost_solved_shape t g by simp
qed

text \<open>
  C8. In a state that satisfies the grid invariant, sliding a tile into the adjacent blank
  cell and then sliding the same tile back into the cell it came from succeeds both times
  and leaves the grid and the fields of all tiles as they were before.
\<close>

theorem slideTile_there_and_back:
  assumes inv: "grid_inv n s" and t: "tiles s t = Some ti"
    and new: "r' < n" "c' < n" and blank: "grid s ! r' ! c' = None"
    and adj: "adjacent (row ti) (col ti) r' c'"
  shows "\<exists>s1 s2. slideTile s t r' c' = Inr s1 \<and>
                 slideTile s1 t (row ti) (col ti) = Inr s2 \<and>
                 grid s2 = grid s \<and> tiles s2 = tiles s"
proof -
  note pos = tile_pos [OF inv t]
  have sh: "shape n s" using inv by (simp add: grid_inv_def)
  have rc: "row ti < n" "col ti < n" using pos by simp_all
  obtain s1 where s1: "slideTile s t r' c' = Inr s1" "shape n s1"
      "tiles s1 = (tiles s)(t \<mapsto> ti\<lparr>row := r', col := c'\<rparr>)"
      "\<forall>a<n. \<forall>b<n. grid s1 ! a ! b =
              (if a = row ti \<and> b = col ti then None
               else if a = r' \<and> b = c' then Some t else grid s ! a ! b)"
    using slideTile_in [OF sh t rc new] by blast
  let ?ti1 = "ti\<lparr>row := r', col := c'\<rparr>"
  have t1: "tiles s1 t = Some ?ti1" using s1(3) by simp
  have rc1: "row ?ti1 < n" "col ?ti1 < n" using new by simp_all
  obtain s2 where s2: "slideTile s1 t (row ti) (col ti) = Inr s2" "shape n s2"
      "tiles s2 = (tiles s1)(t \<mapsto> ?ti1\<lparr>row := row ti, col := col ti\<rparr>)"
      "\<forall>a<n. \<forall>b<n. grid s2 ! a ! b =
              (if a = row ?ti1 \<and> b = col ?ti1 then None
               else if a = row ti \<and> b = col ti then Some t else grid s1 ! a ! b)"
    using slideTile_in [OF s1(2) t1 rc1 rc] by blast
  have "\<forall>a<n. \<forall>b<n. grid s2 ! a ! b = grid s ! a ! b"
  proof (intro allI impI)
    fix a b assume ab: "a < n" "b < n"
    show "grid s2 ! a ! b = grid s ! a ! b"
      using s2(4) s1(4) ab pos blank by simp
  qed
  then have g: "grid s2 = grid s" using grid_eqI [OF s2(2) sh] by simp
  have "tiles s2 = (tiles s)(t \<mapsto> ti)" using s2(3) s1(3) by simp
  then have "tiles s2 = tiles s" using t by (simp add: map_upd_triv)
  then show ?thesis using s1(1) s2(1) g by simp
qed

theorem slideTile_there_and_back_witness:
  "grid_inv 3 almost_solved \<and>
   tiles almost_solved 1 = Some \<lparr>frame = Some 1, row = 0, col = 2\<rparr> \<and>
   grid almost_solved ! 0 ! 1 = None \<and> adjacent 0 2 0 1 \<and>
   (\<exists>s1 s2. slideTile almost_solved 1 0 1 = Inr s1 \<and> slideTile s1 1 0 2 = Inr s2 \<and>
            grid s2 = grid almost_solved \<and> tiles s2 = tiles almost_solved)"
proof -
  have t: "tiles almost_solved 1 = Some \<lparr>frame = Some 1, row = 0, col = 2\<rparr>"
    by (simp add: almost_solved_def)
  have b: "grid almost_solved ! 0 ! 1 = None" by (simp add: almost_solved_def)
  have a: "adjacent 0 2 0 1" by (simp add: adjacent_def)
  have "\<exists>s1 s2. slideTile almost_solved 1 0 1 = Inr s1 \<and> slideTile s1 1 0 2 = Inr s2 \<and>
            grid s2 = grid almost_solved \<and> tiles s2 = tiles almost_solved"
    using slideTile_there_and_back [OF almost_solved_inv t _ _ b] a by simp
  then show ?thesis using almost_solved_inv t b a by simp
qed

text \<open>
  C9 (as amended). A legal move (the scene listens, the grid invariant holds and the
  activated tile is next to the blank) does the grid swap at once: when the handler
  returns, the tile is in the cell that was blank, its old cell is null and its fields
  name the new cell. The win check is not run by the handler: the music and the win
  sound are as before, the scene still listens, and one more tween, on the tile, is
  pending. The check runs when a pending tween completes (checkWin is the completion
  callback), and an activation that arrives before that is handled by tileClicked first.
\<close>

theorem move_swaps_at_once_checkWin_on_tween:
  assumes inv: "grid_inv n s" and on: "input_on s"
    and t: "tiles s t = Some ti"
    and b: "br < n" "bc < n" "grid s ! br ! bc = None"
    and adj: "adjacent (row ti) (col ti) br bc"
  shows "\<exists>s'. fire n s (GameObjectDown t) = Inr s' \<and>
           grid s' ! br ! bc = Some t \<and> grid s' ! row ti ! col ti = None \<and>
           tiles s' t = Some (ti\<lparr>row := br, col := bc\<rparr>) \<and>
           input_on s' \<and> bgm_playing s' = bgm_playing s \<and>
           noot_playing s' = noot_playing s \<and>
           tweens s' = tweens s @ [t] \<and>
           (\<exists>tw tws. tweens s' = tw # tws \<and>
                     fire n s' TweenComplete = checkWin n (s'\<lparr>tweens := tws\<rparr>)) \<and>
           (\<forall>u. fire n s' (GameObjectDown u) = tileClicked n s' u)"
proof -
  note pos = tile_pos [OF inv t]
  have sh: "shape n s" using inv by (simp add: grid_inv_def)
  have rc: "row ti < n" "col ti < n" using pos by simp_all
  obtain ur uc where u: "ur < n" "uc < n"
    and uu: "\<forall>r<n. \<forall>c<n. (grid s ! r ! c = None) = (r = ur \<and> c = uc)"
    using inv unfolding grid_inv_def one_blank_def by blast
  have "ur = br" "uc = bc" using uu b by auto
  then have bu: "\<forall>r<n. \<forall>c<n. (grid s ! r ! c = None) = (r = br \<and> c = bc)"
    using uu by simp
  define up where "up \<longleftrightarrow> 0 < row ti \<and> grid s ! (row ti - 1) ! col ti = None"
  define down where "down \<longleftrightarrow> row ti < n - 1 \<and> grid s ! (row ti + 1) ! col ti = None"
  define left where "left \<longleftrightarrow> 0 < col ti \<and> grid s ! row ti ! (col ti - 1) = None"
  define right where "right \<longleftrightarrow> col ti < n - 1 \<and> grid s ! row ti ! (col ti + 1) = None"
  have a1: "and_blank (0 < row ti) (grid s) (row ti - 1) (col ti) = Inr up"
    unfolding up_def using rc by (intro and_blank_in [OF sh]) auto
  have a2: "and_blank (row ti < n - 1) (grid s) (row ti + 1) (col ti) = Inr down"
    unfolding down_def using rc by (intro and_blank_in [OF sh]) auto
  have a3: "and_blank (0 < col ti) (grid s) (row ti) (col ti - 1) = Inr left"
    unfolding left_def using rc by (intro and_blank_in [OF sh]) auto
  have a4: "and_blank (col ti < n - 1) (grid s) (row ti) (col ti + 1) = Inr right"
    unfolding right_def using rc by (intro and_blank_in [OF sh]) auto
  have E: "tileClicked n s t =
             (if up then slideTile s t (row ti - 1) (col ti)
              else if down then slideTile s t (row ti + 1) (col ti)
              else if left then slideTile s t (row ti) (col ti - 1)
              else if right then slideTile s t (row ti) (col ti + 1)
              else Inr s)"
    by (simp only: tileClicked_def t a1 a2 a3 a4 option.case sum.case bool.case_eq_if simp_thms)
  have up_eq: "up \<longleftrightarrow> 0 < row ti \<and> row ti - 1 = br \<and> col ti = bc"
    unfolding up_def using bu rc by (cases "0 < row ti") auto
  have down_eq: "down \<longleftrightarrow> row ti < n - 1 \<and> row ti + 1 = br \<and> col ti = bc"
    unfolding down_def using bu rc by (cases "row ti < n - 1") auto
  have left_eq: "left \<longleftrightarrow> 0 < col ti \<and> row ti = br \<and> col ti - 1 = bc"
    unfolding left_def using bu rc by (cases "0 < col ti") auto
  have right_eq: "right \<longleftrightarrow> col ti < n - 1 \<and> row ti = br \<and> col ti + 1 = bc"
    unfolding right_def using bu rc by (cases "col ti < n - 1") auto
  have click: "tileClicked n s t = slideTile s t br bc"
    unfolding E up_eq down_eq left_eq right_eq
    using adj b(1,2) by (auto simp: adjacent_def)
  obtain s' where s': "slideTile s t br bc = Inr s'"
      "tiles s' = (tiles s)(t \<mapsto> ti\<lparr>row := br, col := bc\<rparr>)"
      "\<forall>a<n. \<forall>b<n. grid s' ! a ! b =
              (if a = row ti \<and> b = col ti then None
               else if a = br \<and> b = bc then Some t else grid s ! a ! b)"
      "input_on s' = input_on s" "bgm_playing s' = bgm_playing s"
      "noot_playing s' = noot_playing s" "tweens s' = tweens s @ [t]"
    using slideTile_in [OF sh t rc b(1,2)] by blast
  have ne: "\<not> (br = row ti \<and> bc = col ti)" using pos b(3) by auto
  have f: "fire n s (GameObjectDown t) = Inr s'" using on click s'(1) by simp
  have g1: "grid s' ! br ! bc = Some t" using s'(3) b(1,2) ne by simp
  have g2: "grid s' ! row ti ! col ti = None" using s'(3) rc by simp
  have t': "tiles s' t = Some (ti\<lparr>row := br, col := bc\<rparr>)" using s'(2) by simp
  have on': "input_on s'" using s'(4) on by simp
  obtain tw tws where tw: "tweens s' = tw # tws"
    using s'(7) by (cases "tweens s") auto
  then have cmp: "fire n s' TweenComplete = checkWin n (s'\<lparr>tweens := tws\<rparr>)" by simp
  have nxt: "\<forall>u. fire n s' (GameObjectDown u) = tileClicked n s' u" using on' by simp
  show ?thesis
    using f g1 g2 t' on' s'(5,6,7) tw cmp nxt by blast
qed

theorem move_swaps_at_once_checkWin_on_tween_witness:
  "grid_inv 3 almost_solved \<and> input_on almost_solved \<and>
   tiles almost_solved 1 = Some \<lparr>frame = Some 1, row = 0, col = 2\<rparr> \<and>
   (0::nat) < 3 \<and> (1::nat) < 3 \<and> grid almost_solved ! 0 ! 1 = None \<and> adjacent 0 2 0 1 \<and>
   (\<exists>s'. fire 3 almost_solved (GameObjectDown 1) = Inr s' \<and>
         grid s' ! 0 ! 1 = Some 1 \<and> grid s' ! 0 ! 2 = None \<and>
         tiles s' 1 = Some \<lparr>frame = Some 1, row = 0, col = 1\<rparr> \<and>
         input_on s' \<and> bgm_playing s' = bgm_playing almost_solved \<and>
         noot_playing s' = noot_playing almost_solved \<and>
         tweens s' = tweens almost_solved @ [1] \<and>
         (\<exists>tw tws. tweens s' = tw # tws \<and>
                   fire 3 s' TweenComplete = checkWin 3 (s'\<lparr>tweens := tws\<rparr>)) \<and>
         (\<forall>u. fire 3 s' (GameObjectDown u) = tileClicked 3 s' u))"
proof -
  have on: "input_on almost_solved" by (simp add: almost_solved_def)
  have t: "tiles almost_solved 1 = Some \<lparr>frame = Some 1, row = 0, col = 2\<rparr>"
    by (simp add: almost_solved_def)
  have b: "grid almost_solved ! 0 ! 1 = None" by (simp add: almost_solved_def)
  have a: "adjacent 0 2 0 1" by (simp add: adjacent_def)
  have "\<exists>s'. fire 3 almost_solved (GameObjectDown 1) = Inr s' \<and>
         grid s' ! 0 ! 1 = Some 1 \<and> grid s' ! 0 ! 2 = None \<and>
         tiles s' 1 = Some \<lparr>frame = Some 1, row = 0, col = 1\<rparr> \<and>
         input_on s' \<and> bgm_playing s' = bgm_playing almost_solved \<and>
         noot_playing s' = noot_playing almost_solved \<and>
         tweens s' = tweens almost_solved @ [1] \<and>
         (\<exists>tw tws. tweens s' = tw # tws \<and>
                   fire 3 s' TweenComplete = checkWin 3 (s'\<lparr>tweens := tws\<rparr>)) \<and>
         (\<forall>u. fire 3 s' (GameObjectDown u) = tileClicked 3 s' u)"
    using move_swaps_at_once_checkWin_on_tween [OF almost_solved_inv on t _ _ b] a by simp
  then show ?thesis using almost_solved_inv on t b a by simp
qed

text \<open>
  The claim as written (the win check runs synchronously after the swap, before the next
  activation) fails: the move below solves the picture, yet after it the scene still
  listens, the music plays and the check is pending; the next activation is handled
  first and moves the tile back, and the two checks that run afterwards see an unsolved
  grid, so the win is never signalled.
\<close>

theorem checkWin_deferred_counterexample:
  "fire 3 almost_solved (GameObjectDown 1) = Inr after_move \<and>
   spec_isSolved 3 after_move \<and>
   input_on after_move \<and> bgm_playing after_move \<and> \<not> noot_playing after_move \<and>
   tweens after_move = [1] \<and>
   map_sum id grid (fire 3 after_move (GameObjectDown 1)) = Inr (grid almost_solved) \<and>
   map_sum id input_on
     (run 3 almost_solved [GameObjectDown 1, GameObjectDown 1, TweenComplete, TweenComplete])
     = Inr True"
proof -
  have "spec_isSolved 3 after_move" by code_simp
  moreover have "input_on after_move \<and> bgm_playing after_move \<and> \<not> noot_playing after_move \<and>
   tweens after_move = [1]" by (simp add: after_move_def almost_solved_def)
  moreover have "map_sum id grid (fire 3 after_move (GameObjectDown 1)) = Inr (grid almost_solved)"
    by code_simp
  moreover have "map_sum id input_on
     (run 3 almost_solved [GameObjectDown 1, GameObjectDown 1, TweenComplete, TweenComplete])
     = Inr True" by code_simp
  ultimately show ?thesis using fire_almost_solved by simp
qed

text \<open>
  C10. tileClicked preserves the grid invariant: from a square grid with exactly one null
  cell, every tile object in exactly one cell and every tile's fields equal to its
  indices in the grid, the handler returns without an error a state with the same
  properties.
\<close>

theorem tileClicked_preserves_grid_inv:
  assumes inv: "grid_inv n s" and dom: "t \<in> dom (tiles s)"
  shows "\<exists>s'. tileClicked n s t = Inr s' \<and> grid_inv n s'"
proof -
  obtain ti where t: "tiles s t = Some ti" using dom by blast
  note pos = tile_pos [OF inv t]
  have sh: "shape n s" using inv by (simp add: grid_inv_def)
  have rc: "row ti < n" "col ti < n" using pos by simp_all
  define up where "up \<longleftrightarrow> 0 < row ti \<and> grid s ! (row ti - 1) ! col ti = None"
  define down where "down \<longleftrightarrow> row ti < n - 1 \<and> grid s ! (row ti + 1) ! col ti = None"
  define left where "left \<longleftrightarrow> 0 < col ti \<and> grid s ! row ti ! (col ti - 1) = None"
  define right where "right \<longleftrightarrow> col ti < n - 1 \<and> grid s ! row ti ! (col ti + 1) = None"
  have a1: "and_blank (0 < row ti) (grid s) (row ti - 1) (col ti) = Inr up"
    unfolding up_def using rc by (intro and_blank_in [OF sh]) auto
  have a2: "and_blank (row ti < n - 1) (grid s) (row ti + 1) (col ti) = Inr down"
    unfolding down_def using rc by (intro and_blank_in [OF sh]) auto
  have a3: "and_blank (0 < col ti) (grid s) (row ti) (col ti - 1) = Inr left"
    unfolding left_def using rc by (intro and_blank_in [OF sh]) auto
  have a4: "and_blank (col ti < n - 1) (grid s) (row ti) (col ti + 1) = Inr right"
    unfolding right_def using rc by (intro and_blank_in [OF sh]) auto
  have E: "tileClicked n s t =
             (if up then slideTile s t (row ti - 1) (col ti)
              else if down then slideTile s t (row ti + 1) (col ti)
              else if left then slideTile s t (row ti) (col ti - 1)
              else if right then slideTile s t (row ti) (col ti + 1)
              else Inr s)"
    by (simp only: tileClicked_def t a1 a2 a3 a4 option.case sum.case bool.case_eq_if simp_thms)
  have slide: "\<exists>s'. slideTile s t r' c' = Inr s' \<and> grid_inv n s'"
    if h1: "r' < n" and h2: "c' < n" and h3: "grid s ! r' ! c' = None" for r' c'
  proof -
    obtain s' where s': "slideTile s t r' c' = Inr s'"
      using slideTile_in [OF sh t rc h1 h2] by blast
    then have "grid_inv n s'" using slide_inv [OF inv t h1 h2 h3 s'] by simp
    then show ?thesis using s' by blast
  qed
  have su: "\<exists>s'. slideTile s t (row ti - 1) (col ti) = Inr s' \<and> grid_inv n s'" if up
    using that rc unfolding up_def by (intro slide) auto
  have sd: "\<exists>s'. slideTile s t (row ti + 1) (col ti) = Inr s' \<and> grid_inv n s'" if down
    using that rc unfolding down_def by (intro slide) auto
  have sl: "\<exists>s'. slideTile s t (row ti) (col ti - 1) = Inr s' \<and> grid_inv n s'" if left
    using that rc unfolding left_def by (intro slide) auto
  have sr: "\<exists>s'. slideTile s t (row ti) (col ti + 1) = Inr s' \<and> grid_inv n s'" if right
    using that rc unfolding right_def by (intro slide) auto
  show ?thesis
    unfolding E using su sd sl sr inv by simp
qed

theorem tileClicked_preserves_grid_inv_witness:
  "grid_inv 3 almost_solved \<and> 1 \<in> dom (tiles almost_solved) \<and>
   (\<exists>s'. tileClicked 3 almost_solved 1 = Inr s' \<and> grid_inv 3 s')"
proof -
  have d: "1 \<in> dom (tiles almost_solved)" by (simp add: almost_solved_def)
  show ?thesis
    using tileClicked_preserves_grid_inv [OF almost_solved_inv d] almost_solved_inv d by simp
qed

end
